theory Spec2Isabelle
  imports Main "HOL-Library.AList"
begin


section \<open>Object references and the linked nodes of the recency list\<close>

text \<open>
  Both implementations keep their recency order in a doubly linked list of \<open>LRUNode\<close>
  objects that refer to each other through \<open>prev\<close> and \<open>next\<close>. An object reference is
  an address, the objects live in a store from addresses to nodes, and \<open>new LRUNode(...)\<close>
  takes the next unused address. A reference held by the program always points to an
  object, so the branch where the store has no node at an address is never taken by a
  run of the program; the functions below leave the store unchanged there.
\<close>

type_synonym ref = nat

record 'k LRUNode =
  key :: 'k
  prev :: "ref option"
  nxt :: "ref option"

type_synonym ('k, 'm) store = "ref \<Rightarrow> ('k, 'm) LRUNode_scheme option"

definition prev_of :: "('k, 'm) store \<Rightarrow> ref \<Rightarrow> ref option" where
  "prev_of h r = (case h r of None \<Rightarrow> None | Some n \<Rightarrow> prev n)"

definition next_of :: "('k, 'm) store \<Rightarrow> ref \<Rightarrow> ref option" where
  "next_of h r = (case h r of None \<Rightarrow> None | Some n \<Rightarrow> nxt n)"

definition set_prev :: "ref \<Rightarrow> ref option \<Rightarrow> ('k, 'm) store \<Rightarrow> ('k, 'm) store" where
  "set_prev r v h = (case h r of None \<Rightarrow> h | Some n \<Rightarrow> h(r \<mapsto> n\<lparr>prev := v\<rparr>))"

definition set_next :: "ref \<Rightarrow> ref option \<Rightarrow> ('k, 'm) store \<Rightarrow> ('k, 'm) store" where
  "set_next r v h = (case h r of None \<Rightarrow> h | Some n \<Rightarrow> h(r \<mapsto> n\<lparr>nxt := v\<rparr>))"

text \<open>
  The state shared by both implementations: the node store, the allocation counter, and
  the \<open>head\<close> (most recently used) and \<open>tail\<close> (least recently used) pointers.
\<close>

record ('k, 'm) dlist =
  heap :: "('k, 'm) store"
  fresh :: ref
  head :: "ref option"
  tail :: "ref option"

section \<open>The ambient ECMAScript functions\<close>

text \<open>
  Persistence converts keys with the built-in \<open>String(key)\<close>, \<open>Number(keyStr)\<close> and
  \<open>isNaN\<close>. They are not code of the repository; the model takes them as a parameter
  \<open>J\<close> over an arbitrary type \<open>'n\<close> of number values, so every general theorem holds for
  the real functions. \<open>js0\<close> below is an instance for concrete runs.
\<close>

record 'n js =
  js_Number :: "string \<Rightarrow> 'n"
  js_isNaN :: "'n \<Rightarrow> bool"
  js_String :: "'n \<Rightarrow> string"

text \<open>
  The persisted blob. \<open>localStorage.getItem\<close> gives \<open>null\<close> (no item), or a string that
  \<open>JSON.parse\<close> rejects or that parses to something \<open>Object.entries\<close> rejects
  (\<open>Unparseable\<close>), or an object whose properties are listed in order
  (\<open>JObject\<close>). A property whose JSON text is \<open>null\<close> is \<open>None\<close>: reading
  \<open>entry.expiresAt\<close> on it throws a TypeError. The global \<open>localStorage\<close> itself may be
  undefined (\<open>None\<close>). Values are taken to survive \<open>JSON.stringify\<close> and \<open>JSON.parse\<close>
  unchanged, and \<open>setItem\<close> to succeed. Objects list their properties in insertion
  order here (ECMAScript lists array-index names first); nothing below depends on the
  order of a snapshot written by the cache.
\<close>

datatype 'e stored = Unparseable | JObject "(string \<times> 'e option) list"

type_synonym 'e storage = "(string \<Rightarrow> 'e stored option) option"

datatype persist_opt = PBool bool | PName string

fun truthy :: "persist_opt \<Rightarrow> bool" where
  "truthy (PBool b) = b"
| "truthy (PName s) = (s \<noteq> [])"

section \<open>First implementation (the class with \<open>parseKey\<close> and \<open>lruMap\<close>)\<close>

datatype 'n key = KStr string | KNum 'n | KBool bool

fun keyString :: "'n js \<Rightarrow> 'n key \<Rightarrow> string" where
  "keyString J (KStr s) = s"
| "keyString J (KNum n) = js_String J n"
| "keyString J (KBool b) = (if b then ''true'' else ''false'')"

record CacheOptions =
  maxSize :: int
  defaultTTL :: "int option"
  persist :: "persist_opt option"

record 'v CacheEntry =
  entry_value :: 'v
  expiresAt :: "int option"
  lastUsed :: int

text \<open>
  \<open>cache\<close> is the \<open>Map\<close> from keys to entries, in insertion order (the order its
  iteration follows); \<open>lruMap\<close> is never iterated and is a plain map.
\<close>

record ('n, 'v) SmartCache = "('n key, unit) dlist" +
  cache :: "('n key \<times> 'v CacheEntry) list"
  lruMap :: "'n key \<Rightarrow> ref option"
  opt_maxSize :: int
  opt_defaultTTL :: int
  opt_persist :: persist_opt
  storageKey :: string
  localStorage :: "'v CacheEntry storage"

definition isExpired :: "int \<Rightarrow> 'v CacheEntry \<Rightarrow> bool" where
  "isExpired now e = (case expiresAt e of None \<Rightarrow> False | Some t \<Rightarrow> now > t)"

definition saveToStorage :: "'n js \<Rightarrow> int \<Rightarrow> ('n, 'v) SmartCache \<Rightarrow> ('n, 'v) SmartCache" where
  "saveToStorage J now s =
     (if storageKey s = [] then s
      else case localStorage s of
        None \<Rightarrow> s
      | Some ls \<Rightarrow>
          let data = foldl (\<lambda>d (k, e). if \<not> isExpired now e then AList.update (keyString J k) e d else d)
                       [] (cache s)
          in s\<lparr>localStorage := Some (ls(storageKey s \<mapsto> JObject (map (\<lambda>(n, e). (n, Some e)) data)))\<rparr>)"

definition addToLRU :: "'n key \<Rightarrow> ('n, 'v) SmartCache \<Rightarrow> ('n, 'v) SmartCache" where
  "addToLRU k s =
     (let r = fresh s;
          s1 = s\<lparr>heap := (heap s)(r \<mapsto> \<lparr>key = k, prev = None, nxt = None\<rparr>), fresh := Suc r,
                 lruMap := (lruMap s)(k \<mapsto> r)\<rparr>
      in case head s1 of
           None \<Rightarrow> s1\<lparr>head := Some r, tail := Some r\<rparr>
         | Some h \<Rightarrow> s1\<lparr>heap := set_prev h (Some r) (set_next r (Some h) (heap s1)), head := Some r\<rparr>)"

definition removeFromLRU :: "'n key \<Rightarrow> ('n, 'v) SmartCache \<Rightarrow> ('n, 'v) SmartCache" where
  "removeFromLRU k s =
     (case lruMap s k of
        None \<Rightarrow> s
      | Some r \<Rightarrow>
          let s1 = (case prev_of (heap s) r of
                      Some p \<Rightarrow> s\<lparr>heap := set_next p (next_of (heap s) r) (heap s)\<rparr>
                    | None \<Rightarrow> s\<lparr>head := next_of (heap s) r\<rparr>);
              s2 = (case next_of (heap s1) r of
                      Some q \<Rightarrow> s1\<lparr>heap := set_prev q (prev_of (heap s1) r) (heap s1)\<rparr>
                    | None \<Rightarrow> s1\<lparr>tail := prev_of (heap s1) r\<rparr>)
          in s2\<lparr>lruMap := (lruMap s2)(k := None)\<rparr>)"

definition moveToFront :: "'n key \<Rightarrow> ('n, 'v) SmartCache \<Rightarrow> ('n, 'v) SmartCache" where
  "moveToFront k s =
     (case lruMap s k of
        None \<Rightarrow> s
      | Some r \<Rightarrow>
          if head s = Some r then s
          else
            let s1 = (case prev_of (heap s) r of
                        Some p \<Rightarrow> s\<lparr>heap := set_next p (next_of (heap s) r) (heap s)\<rparr>
                      | None \<Rightarrow> s);
                s2 = (case next_of (heap s1) r of
                        Some q \<Rightarrow> s1\<lparr>heap := set_prev q (prev_of (heap s1) r) (heap s1)\<rparr>
                      | None \<Rightarrow> s1\<lparr>tail := prev_of (heap s1) r\<rparr>);
                s3 = s2\<lparr>heap := set_next r (head s2) (set_prev r None (heap s2))\<rparr>;
                s4 = (case head s3 of
                        Some h \<Rightarrow> s3\<lparr>heap := set_prev h (Some r) (heap s3)\<rparr>
                      | None \<Rightarrow> s3)
            in s4\<lparr>head := Some r\<rparr>)"

definition delete1 :: "'n js \<Rightarrow> int \<Rightarrow> 'n key \<Rightarrow> ('n, 'v) SmartCache \<Rightarrow> ('n, 'v) SmartCache" where
  "delete1 J now k s =
     (if map_of (cache s) k \<noteq> None then
        let s1 = removeFromLRU k (s\<lparr>cache := AList.delete k (cache s)\<rparr>)
        in if truthy (opt_persist s1) then saveToStorage J now s1 else s1
      else s)"

definition cleanExpired :: "'n js \<Rightarrow> int \<Rightarrow> ('n, 'v) SmartCache \<Rightarrow> ('n, 'v) SmartCache" where
  "cleanExpired J now s =
     (let keysToDelete = map fst (filter (\<lambda>(k, e). isExpired now e) (cache s))
      in foldl (\<lambda>s' k. delete1 J now k s') s keysToDelete)"

definition evictLRU :: "'n js \<Rightarrow> int \<Rightarrow> ('n, 'v) SmartCache \<Rightarrow> ('n, 'v) SmartCache" where
  "evictLRU J now s =
     (case tail s of
        None \<Rightarrow> s
      | Some t \<Rightarrow>
          (case find (\<lambda>(k, e). isExpired now e) (cache s) of
             Some (k, e) \<Rightarrow> delete1 J now k s
           | None \<Rightarrow>
               (case heap s t of
                  None \<Rightarrow> s
                | Some node \<Rightarrow> delete1 J now (key node) s)))"

definition set1 ::
  "'n js \<Rightarrow> int \<Rightarrow> 'n key \<Rightarrow> 'v \<Rightarrow> int option \<Rightarrow> ('n, 'v) SmartCache \<Rightarrow> ('n, 'v) SmartCache" where
  "set1 J now k v ttlMs s =
     (let s1 = (if map_of (cache s) k \<noteq> None then removeFromLRU k s else s);
          s2 = (if int (length (cache s1)) \<ge> opt_maxSize s1 \<and> map_of (cache s1) k = None
                then evictLRU J now s1 else s1);
          ttl = (case ttlMs of Some t \<Rightarrow> t | None \<Rightarrow> opt_defaultTTL s2);
          exp = (if ttl > 0 then Some (now + ttl) else None);
          entry = \<lparr>entry_value = v, expiresAt = exp, lastUsed = now\<rparr>;
          s3 = addToLRU k (s2\<lparr>cache := AList.update k entry (cache s2)\<rparr>)
      in if truthy (opt_persist s3) then saveToStorage J now s3 else s3)"

definition get1 ::
  "'n js \<Rightarrow> int \<Rightarrow> 'n key \<Rightarrow> ('n, 'v) SmartCache \<Rightarrow> 'v option \<times> ('n, 'v) SmartCache" where
  "get1 J now k s =
     (case map_of (cache s) k of
        None \<Rightarrow> (None, s)
      | Some entry \<Rightarrow>
          if isExpired now entry then (None, delete1 J now k s)
          else (Some (entry_value entry),
                moveToFront k (s\<lparr>cache := AList.update k (entry\<lparr>lastUsed := now\<rparr>) (cache s)\<rparr>)))"

definition clear1 :: "'n js \<Rightarrow> int \<Rightarrow> ('n, 'v) SmartCache \<Rightarrow> ('n, 'v) SmartCache" where
  "clear1 J now s =
     (let s1 = s\<lparr>cache := [], lruMap := (\<lambda>k. None), head := None, tail := None\<rparr>
      in if truthy (opt_persist s1) then saveToStorage J now s1 else s1)"

definition has1 :: "'n js \<Rightarrow> int \<Rightarrow> 'n key \<Rightarrow> ('n, 'v) SmartCache \<Rightarrow> bool \<times> ('n, 'v) SmartCache" where
  "has1 J now k s =
     (case map_of (cache s) k of
        None \<Rightarrow> (False, s)
      | Some entry \<Rightarrow> if isExpired now entry then (False, delete1 J now k s) else (True, s))"

definition size1 :: "'n js \<Rightarrow> int \<Rightarrow> ('n, 'v) SmartCache \<Rightarrow> nat \<times> ('n, 'v) SmartCache" where
  "size1 J now s = (let s1 = cleanExpired J now s in (length (cache s1), s1))"

definition parseKey :: "'n js \<Rightarrow> string \<Rightarrow> 'n key" where
  "parseKey J keyStr =
     (if keyStr = ''true'' \<or> keyStr = ''false'' then KBool (keyStr = ''true'')
      else
        let asNumber = js_Number J keyStr
        in if \<not> js_isNaN J asNumber \<and> keyStr = js_String J asNumber then KNum asNumber
           else KStr keyStr)"

text \<open>
  The loop of \<open>loadFromStorage\<close>. It stops at the first property that is \<open>null\<close>: the
  TypeError leaves the loop and is caught by the \<open>try\<close> around it, after the earlier
  properties have been inserted.
\<close>

fun restore1 ::
  "'n js \<Rightarrow> int \<Rightarrow> (string \<times> 'v CacheEntry option) list \<Rightarrow> ('n, 'v) SmartCache \<Rightarrow> ('n, 'v) SmartCache" where
  "restore1 J now [] s = s"
| "restore1 J now ((keyStr, ent) # rest) s =
     (let k = parseKey J keyStr
      in case ent of
           None \<Rightarrow> s
         | Some entry \<Rightarrow>
             if (case expiresAt entry of None \<Rightarrow> False | Some t \<Rightarrow> now > t)
             then restore1 J now rest s
             else restore1 J now rest (addToLRU k (s\<lparr>cache := AList.update k entry (cache s)\<rparr>)))"

definition loadFromStorage :: "'n js \<Rightarrow> int \<Rightarrow> ('n, 'v) SmartCache \<Rightarrow> ('n, 'v) SmartCache" where
  "loadFromStorage J now s =
     (if storageKey s = [] then s
      else case localStorage s of
        None \<Rightarrow> s
      | Some ls \<Rightarrow>
          (case ls (storageKey s) of
             None \<Rightarrow> s
           | Some Unparseable \<Rightarrow> s
           | Some (JObject data) \<Rightarrow> restore1 J now data s))"

text \<open>The constructor; \<open>ls\<close> is the global \<open>localStorage\<close> it finds.\<close>

definition new1 :: "'n js \<Rightarrow> int \<Rightarrow> CacheOptions \<Rightarrow> 'v CacheEntry storage \<Rightarrow> ('n, 'v) SmartCache" where
  "new1 J now opts ls =
     (let p = (case persist opts of None \<Rightarrow> PBool False | Some x \<Rightarrow> x);
          s = \<lparr>heap = (\<lambda>r. None), fresh = 0, head = None, tail = None,
               cache = [], lruMap = (\<lambda>k. None),
               opt_maxSize = maxSize opts,
               opt_defaultTTL = (case defaultTTL opts of None \<Rightarrow> 0 | Some t \<Rightarrow> t),
               opt_persist = p,
               storageKey = (case p of PName n \<Rightarrow> n | PBool b \<Rightarrow> if b then ''smart-cache-default'' else []),
               localStorage = ls\<rparr>
      in if truthy p then loadFromStorage J now s else s)"


section \<open>Second implementation (the class with \<open>DoublyLinkedList\<close>)\<close>

text \<open>
  Its keys are \<open>string | number\<close>, its nodes carry the value and the expiry, and its
  \<open>Map\<close> goes from keys to nodes. \<open>maxSize\<close> is \<open>Infinity\<close> (\<open>None\<close>) when the option is
  left out.
\<close>

datatype 'n key2 = Str string | Num 'n

fun keyString2 :: "'n js \<Rightarrow> 'n key2 \<Rightarrow> string" where
  "keyString2 J (Str s) = s"
| "keyString2 J (Num n) = js_String J n"

record ('k, 'v) LRUNode2 = "'k LRUNode" +
  node_value :: 'v
  node_expiresAt :: "int option"

record SmartCacheOptions =
  maxSize_opt :: "int option"
  defaultTTL_opt :: "int option"
  persist_opt :: "persist_opt option"

record 'v SerializedEntry =
  ser_value :: 'v
  ser_expiresAt :: "int option"

record ('n, 'v) SmartCache2 = "('n key2, ('v, unit) LRUNode2_ext) dlist" +
  map2 :: "('n key2 \<times> ref) list"
  maxSize2 :: "int option"
  defaultTTL2 :: "int option"
  persistKey :: "string option"
  localStorage2 :: "'v SerializedEntry storage"

subsection \<open>\<open>DoublyLinkedList\<close>\<close>

definition addToFront :: "ref \<Rightarrow> ('k, 'm, 'z) dlist_scheme \<Rightarrow> ('k, 'm, 'z) dlist_scheme" where
  "addToFront r s =
     (let s1 = s\<lparr>heap := set_prev r None (set_next r (head s) (heap s))\<rparr>;
          s2 = (case head s1 of
                  Some h \<Rightarrow> s1\<lparr>heap := set_prev h (Some r) (heap s1)\<rparr>
                | None \<Rightarrow> s1);
          s3 = s2\<lparr>head := Some r\<rparr>
      in case tail s3 of None \<Rightarrow> s3\<lparr>tail := Some r\<rparr> | Some t \<Rightarrow> s3)"

definition remove :: "ref \<Rightarrow> ('k, 'm, 'z) dlist_scheme \<Rightarrow> ('k, 'm, 'z) dlist_scheme" where
  "remove r s =
     (let s1 = (case prev_of (heap s) r of
                  Some p \<Rightarrow> s\<lparr>heap := set_next p (next_of (heap s) r) (heap s)\<rparr>
                | None \<Rightarrow> s\<lparr>head := next_of (heap s) r\<rparr>);
          s2 = (case next_of (heap s1) r of
                  Some q \<Rightarrow> s1\<lparr>heap := set_prev q (prev_of (heap s1) r) (heap s1)\<rparr>
                | None \<Rightarrow> s1\<lparr>tail := prev_of (heap s1) r\<rparr>)
      in s2\<lparr>heap := set_next r None (set_prev r None (heap s2))\<rparr>)"

definition moveToFront2 :: "ref \<Rightarrow> ('k, 'm, 'z) dlist_scheme \<Rightarrow> ('k, 'm, 'z) dlist_scheme" where
  "moveToFront2 r s = (if head s = Some r then s else addToFront r (remove r s))"

definition removeTail :: "('k, 'm, 'z) dlist_scheme \<Rightarrow> ref option \<times> ('k, 'm, 'z) dlist_scheme" where
  "removeTail s = (case tail s of None \<Rightarrow> (None, s) | Some t \<Rightarrow> (Some t, remove t s))"

definition list_clear :: "('k, 'm, 'z) dlist_scheme \<Rightarrow> ('k, 'm, 'z) dlist_scheme" where
  "list_clear s = s\<lparr>head := None, tail := None\<rparr>"

subsection \<open>\<open>SmartCache\<close>\<close>

definition isExpired2 :: "int \<Rightarrow> ('k, 'v) LRUNode2 \<Rightarrow> bool" where
  "isExpired2 now node = (case node_expiresAt node of None \<Rightarrow> False | Some t \<Rightarrow> now > t)"

text \<open>\<open>expired_at\<close>: \<open>isExpired\<close> of the node a reference points to.\<close>

definition expired_at :: "int \<Rightarrow> ('n, 'v) SmartCache2 \<Rightarrow> ref \<Rightarrow> bool" where
  "expired_at now s r = (case heap s r of None \<Rightarrow> False | Some node \<Rightarrow> isExpired2 now node)"

definition syncToStorage :: "'n js \<Rightarrow> int \<Rightarrow> ('n, 'v) SmartCache2 \<Rightarrow> ('n, 'v) SmartCache2" where
  "syncToStorage J now s =
     (case persistKey s of
        None \<Rightarrow> s
      | Some name \<Rightarrow>
          if name = [] then s
          else case localStorage2 s of
            None \<Rightarrow> s
          | Some ls \<Rightarrow>
              let entries =
                    foldl (\<lambda>d (k, r). case heap s r of
                               None \<Rightarrow> d
                             | Some node \<Rightarrow>
                                 if \<not> isExpired2 now node
                                 then AList.update (keyString2 J k)
                                        \<lparr>ser_value = node_value node, ser_expiresAt = node_expiresAt node\<rparr> d
                                 else d)
                      [] (map2 s)
              in s\<lparr>localStorage2 := Some (ls(name \<mapsto> JObject (map (\<lambda>(n, e). (n, Some e)) entries)))\<rparr>)"

definition delete2 :: "'n js \<Rightarrow> int \<Rightarrow> 'n key2 \<Rightarrow> ('n, 'v) SmartCache2 \<Rightarrow> ('n, 'v) SmartCache2" where
  "delete2 J now k s =
     (case map_of (map2 s) k of
        None \<Rightarrow> s
      | Some r \<Rightarrow> syncToStorage J now ((remove r s)\<lparr>map2 := AList.delete k (map2 s)\<rparr>))"

definition cleanExpired2 :: "int \<Rightarrow> ('n, 'v) SmartCache2 \<Rightarrow> ('n, 'v) SmartCache2" where
  "cleanExpired2 now s =
     (let keysToDelete = map fst (filter (\<lambda>(k, r). expired_at now s r) (map2 s))
      in foldl (\<lambda>s' k. case map_of (map2 s') k of
                          None \<Rightarrow> s'
                        | Some r \<Rightarrow> (remove r s')\<lparr>map2 := AList.delete k (map2 s')\<rparr>)
           s keysToDelete)"

definition evictLRU2 :: "int \<Rightarrow> ('n, 'v) SmartCache2 \<Rightarrow> ('n, 'v) SmartCache2" where
  "evictLRU2 now s =
     (let s1 = cleanExpired2 now s
      in if (case maxSize2 s1 of None \<Rightarrow> False | Some m \<Rightarrow> int (length (map2 s1)) \<ge> m) then
           (case removeTail s1 of
              (None, s2) \<Rightarrow> s2
            | (Some t, s2) \<Rightarrow>
                (case heap s2 t of
                   None \<Rightarrow> s2
                 | Some lru \<Rightarrow> s2\<lparr>map2 := AList.delete (key lru) (map2 s2)\<rparr>))
         else s1)"

definition set2 ::
  "'n js \<Rightarrow> int \<Rightarrow> 'n key2 \<Rightarrow> 'v \<Rightarrow> int option \<Rightarrow> ('n, 'v) SmartCache2 \<Rightarrow> ('n, 'v) SmartCache2" where
  "set2 J now k v ttlMs s =
     (let ttl = (case ttlMs of Some t \<Rightarrow> Some t | None \<Rightarrow> defaultTTL2 s);
          exp = (case ttl of Some t \<Rightarrow> Some (now + t) | None \<Rightarrow> None);
          s' = (case map_of (map2 s) k of
                  Some r \<Rightarrow>
                    moveToFront2 r
                      (s\<lparr>heap := (case heap s r of
                                     None \<Rightarrow> heap s
                                   | Some node \<Rightarrow>
                                       (heap s)(r \<mapsto> node\<lparr>node_value := v, node_expiresAt := exp\<rparr>))\<rparr>)
                | None \<Rightarrow>
                    let s1 = (if (case maxSize2 s of None \<Rightarrow> False
                                  | Some m \<Rightarrow> int (length (map2 s)) \<ge> m)
                              then evictLRU2 now s else s);
                        r = fresh s1;
                        s2 = s1\<lparr>heap := (heap s1)(r \<mapsto> \<lparr>key = k, prev = None, nxt = None,
                                                          node_value = v, node_expiresAt = exp\<rparr>),
                                fresh := Suc r\<rparr>;
                        s3 = addToFront r s2
                    in s3\<lparr>map2 := AList.update k r (map2 s3)\<rparr>)
      in syncToStorage J now s')"

definition get2 ::
  "'n js \<Rightarrow> int \<Rightarrow> 'n key2 \<Rightarrow> ('n, 'v) SmartCache2 \<Rightarrow> 'v option \<times> ('n, 'v) SmartCache2" where
  "get2 J now k s =
     (case map_of (map2 s) k of
        None \<Rightarrow> (None, s)
      | Some r \<Rightarrow>
          (case heap s r of
             None \<Rightarrow> (None, s)
           | Some node \<Rightarrow>
               if isExpired2 now node then (None, delete2 J now k s)
               else (Some (node_value node), moveToFront2 r s)))"

definition clear2 :: "'n js \<Rightarrow> int \<Rightarrow> ('n, 'v) SmartCache2 \<Rightarrow> ('n, 'v) SmartCache2" where
  "clear2 J now s = syncToStorage J now (list_clear (s\<lparr>map2 := []\<rparr>))"

definition has2 :: "'n js \<Rightarrow> int \<Rightarrow> 'n key2 \<Rightarrow> ('n, 'v) SmartCache2 \<Rightarrow> bool \<times> ('n, 'v) SmartCache2" where
  "has2 J now k s =
     (case map_of (map2 s) k of
        None \<Rightarrow> (False, s)
      | Some r \<Rightarrow>
          (case heap s r of
             None \<Rightarrow> (False, s)
           | Some node \<Rightarrow>
               if isExpired2 now node then (False, delete2 J now k s) else (True, s)))"

definition size2 :: "int \<Rightarrow> ('n, 'v) SmartCache2 \<Rightarrow> nat \<times> ('n, 'v) SmartCache2" where
  "size2 now s = (let s1 = cleanExpired2 now s in (length (map2 s1), s1))"

text \<open>
  \<open>decodeKey2\<close>: the conversion \<open>!isNaN(Number(keyStr)) ? Number(keyStr) : keyStr\<close> that
  \<open>loadFromStorage\<close> applies to a property name.
\<close>

definition decodeKey2 :: "'n js \<Rightarrow> string \<Rightarrow> 'n key2" where
  "decodeKey2 J keyStr = (if \<not> js_isNaN J (js_Number J keyStr) then Num (js_Number J keyStr) else Str keyStr)"

text \<open>
  The loop of \<open>loadFromStorage\<close>; as in the first implementation it is left at the first
  \<open>null\<close> property, inside the \<open>try\<close>.
\<close>

fun restore2 ::
  "'n js \<Rightarrow> int \<Rightarrow> (string \<times> 'v SerializedEntry option) list \<Rightarrow> ('n, 'v) SmartCache2 \<Rightarrow> ('n, 'v) SmartCache2" where
  "restore2 J now [] s = s"
| "restore2 J now ((keyStr, ent) # rest) s =
     (case ent of
        None \<Rightarrow> s
      | Some entry \<Rightarrow>
          if (case ser_expiresAt entry of None \<Rightarrow> False | Some t \<Rightarrow> now > t)
          then restore2 J now rest s
          else
            let k = decodeKey2 J keyStr;
                r = fresh s;
                s1 = s\<lparr>heap := (heap s)(r \<mapsto> \<lparr>key = k, prev = None, nxt = None,
                                                node_value = ser_value entry,
                                                node_expiresAt = ser_expiresAt entry\<rparr>),
                       fresh := Suc r\<rparr>;
                s2 = addToFront r s1
            in restore2 J now rest (s2\<lparr>map2 := AList.update k r (map2 s2)\<rparr>))"

definition loadFromStorage2 :: "'n js \<Rightarrow> int \<Rightarrow> ('n, 'v) SmartCache2 \<Rightarrow> ('n, 'v) SmartCache2" where
  "loadFromStorage2 J now s =
     (case persistKey s of
        None \<Rightarrow> s
      | Some name \<Rightarrow>
          if name = [] then s
          else case localStorage2 s of
            None \<Rightarrow> s
          | Some ls \<Rightarrow>
              (case ls name of
                 None \<Rightarrow> s
               | Some Unparseable \<Rightarrow> s
               | Some (JObject entries) \<Rightarrow> restore2 J now entries s))"

definition new2 :: "'n js \<Rightarrow> int \<Rightarrow> SmartCacheOptions \<Rightarrow> 'v SerializedEntry storage \<Rightarrow> ('n, 'v) SmartCache2" where
  "new2 J now opts ls =
     (let s = \<lparr>heap = (\<lambda>r. None), fresh = 0, head = None, tail = None,
               map2 = [], maxSize2 = maxSize_opt opts, defaultTTL2 = defaultTTL_opt opts,
               persistKey = None, localStorage2 = ls\<rparr>
      in case persist_opt opts of
           None \<Rightarrow> s
         | Some p \<Rightarrow>
             if truthy p
             then loadFromStorage2 J now
                    (s\<lparr>persistKey := Some (case p of PName n \<Rightarrow> n | PBool b \<Rightarrow> ''smartcache_default'')\<rparr>)
             else s)"


section \<open>The recency list as a sequence of references\<close>

text \<open>
  \<open>seg h p rs q\<close>: in store \<open>h\<close> the nodes at \<open>rs\<close> are linked in this order, the first
  one's \<open>prev\<close> is \<open>p\<close> and the last one's \<open>next\<close> is \<open>q\<close>. \<open>dll\<close>: the whole list from
  \<open>head\<close> to \<open>tail\<close>, without a repeated node (no cycle), and \<open>head\<close> and \<open>tail\<close> are
  \<open>null\<close> exactly when it is empty.
\<close>

definition first_or :: "ref list \<Rightarrow> ref option \<Rightarrow> ref option" where
  "first_or rs d = (case rs of [] \<Rightarrow> d | r # _ \<Rightarrow> Some r)"

definition last_or :: "ref list \<Rightarrow> ref option \<Rightarrow> ref option" where
  "last_or rs d = (if rs = [] then d else Some (last rs))"

fun seg :: "('k, 'm) store \<Rightarrow> ref option \<Rightarrow> ref list \<Rightarrow> ref option \<Rightarrow> bool" where
  "seg h p [] q = True"
| "seg h p (r # rs) q =
     (case h r of
        None \<Rightarrow> False
      | Some n \<Rightarrow> prev n = p \<and> nxt n = first_or rs q \<and> seg h (Some r) rs q)"

definition dll :: "('k, 'm, 'z) dlist_scheme \<Rightarrow> ref list \<Rightarrow> bool" where
  "dll s rs = (distinct rs \<and> seg (heap s) None rs None \<and> head s = first_or rs None
               \<and> tail s = last_or rs None \<and> list_all (\<lambda>r. r < fresh s) rs)"

definition key_at :: "('k, 'm) store \<Rightarrow> ref \<Rightarrow> 'k option" where
  "key_at h r = (case h r of None \<Rightarrow> None | Some n \<Rightarrow> Some (key n))"

text \<open>
  \<open>unlink\<close>: the two pointer updates that \<open>removeFromLRU\<close> and \<open>remove\<close> share; a name
  for the proofs, the functions above spell the updates out as the source does.
\<close>

definition unlink :: "ref \<Rightarrow> ('k, 'm, 'z) dlist_scheme \<Rightarrow> ('k, 'm, 'z) dlist_scheme" where
  "unlink r s =
     (let s1 = (case prev_of (heap s) r of
                  Some p \<Rightarrow> s\<lparr>heap := set_next p (next_of (heap s) r) (heap s)\<rparr>
                | None \<Rightarrow> s\<lparr>head := next_of (heap s) r\<rparr>)
      in case next_of (heap s1) r of
           Some q \<Rightarrow> s1\<lparr>heap := set_prev q (prev_of (heap s1) r) (heap s1)\<rparr>
         | None \<Rightarrow> s1\<lparr>tail := prev_of (heap s1) r\<rparr>)"

text \<open>\<open>payload\<close>: what a node holds besides its two links.\<close>

definition payload :: "('k, 'm) store \<Rightarrow> ref \<Rightarrow> ('k \<times> 'm) option" where
  "payload h r = (case h r of None \<Rightarrow> None | Some n \<Rightarrow> Some (key n, LRUNode.more n))"

section \<open>Lockstep of the store map and the recency list\<close>

text \<open>
  First implementation. \<open>linked1 s rs\<close>: the recency list of \<open>s\<close> is \<open>rs\<close> (most recently
  used first) and \<open>lruMap\<close> maps exactly the keys of its nodes to them. \<open>lockstep1\<close> adds
  that \<open>lruMap\<close> and \<open>cache\<close> have the same keys. \<open>inv1\<close>: some list is in lockstep.
\<close>

definition linked1 :: "('n, 'v) SmartCache \<Rightarrow> ref list \<Rightarrow> bool" where
  "linked1 s rs =
     (dll s rs
      \<and> (\<forall>r\<in>set rs. \<exists>k. key_at (heap s) r = Some k \<and> lruMap s k = Some r)
      \<and> (\<forall>k r. lruMap s k = Some r \<longrightarrow> r \<in> set rs \<and> key_at (heap s) r = Some k))"

definition lockstep1 :: "('n, 'v) SmartCache \<Rightarrow> ref list \<Rightarrow> bool" where
  "lockstep1 s rs =
     (linked1 s rs \<and> distinct (map fst (cache s)) \<and> dom (lruMap s) = fst ` set (cache s))"

definition inv1 :: "('n, 'v) SmartCache \<Rightarrow> bool" where
  "inv1 s = (\<exists>rs. lockstep1 s rs)"

text \<open>\<open>alloc1\<close>: the \<open>new LRUNode(key)\<close> and \<open>lruMap.set\<close> that open \<open>addToLRU\<close>.\<close>

definition alloc1 :: "'n key \<Rightarrow> ('n, 'v) SmartCache \<Rightarrow> ('n, 'v) SmartCache" where
  "alloc1 k s = s\<lparr>heap := (heap s)(fresh s \<mapsto> \<lparr>key = k, prev = None, nxt = None\<rparr>),
                  fresh := Suc (fresh s), lruMap := (lruMap s)(k \<mapsto> fresh s)\<rparr>"

text \<open>
  \<open>wf_storage\<close>: what \<open>JSON.parse\<close> can return: the property names of an object are
  pairwise different.
\<close>

definition wf_storage :: "'e storage \<Rightarrow> bool" where
  "wf_storage ls = (case ls of None \<Rightarrow> True
     | Some m \<Rightarrow> (\<forall>name data. m name = Some (JObject data) \<longrightarrow> distinct (map fst data)))"


section \<open>An instance of the ECMAScript functions for concrete runs\<close>

text \<open>
  \<open>js0\<close> has \<open>NaN\<close> and the integers as its numbers. \<open>Number0\<close> agrees with \<open>Number\<close> on
  the empty string (\<open>0\<close>), on decimal digit strings with an optional sign, leading zeros
  allowed (\<open>Number("007")\<close> is \<open>7\<close>), and on the strings it maps to \<open>NaN\<close> that are not
  numeric literals of ECMAScript (\<open>"x"\<close>, \<open>"a"\<close>, \<open>"true"\<close>). Literals with a fraction, an
  exponent, a radix prefix, surrounding white space or \<open>Infinity\<close> are outside the
  instance; it is used on no such string. \<open>String0\<close> is \<open>String\<close> on \<open>NaN\<close> and on integers
  below \<open>10^21\<close> in magnitude.
\<close>

datatype jsnum = NaN | JInt int

definition digit_of :: "char \<Rightarrow> nat option" where
  "digit_of c = (let n = (of_char c :: nat) in if 48 \<le> n \<and> n \<le> 57 then Some (n - 48) else None)"

fun decimal :: "nat \<Rightarrow> string \<Rightarrow> nat option" where
  "decimal acc [] = Some acc"
| "decimal acc (c # cs) = (case digit_of c of None \<Rightarrow> None | Some d \<Rightarrow> decimal (10 * acc + d) cs)"

definition Number0 :: "string \<Rightarrow> jsnum" where
  "Number0 s =
     (case s of
        [] \<Rightarrow> JInt 0
      | c # cs \<Rightarrow>
          if c = CHR ''-'' \<and> cs \<noteq> [] then (case decimal 0 cs of None \<Rightarrow> NaN | Some n \<Rightarrow> JInt (- int n))
          else if c = CHR ''+'' \<and> cs \<noteq> [] then (case decimal 0 cs of None \<Rightarrow> NaN | Some n \<Rightarrow> JInt (int n))
          else (case decimal 0 s of None \<Rightarrow> NaN | Some n \<Rightarrow> JInt (int n)))"

function digits :: "nat \<Rightarrow> string" where
  "digits n = (if n < 10 then [char_of (48 + n)] else digits (n div 10) @ [char_of (48 + n mod 10)])"
  by pat_completeness auto
termination
  by (relation "measure id") auto

declare digits.simps [simp del]

definition String0 :: "jsnum \<Rightarrow> string" where
  "String0 x = (case x of NaN \<Rightarrow> ''NaN'' | JInt i \<Rightarrow> if i < 0 then CHR ''-'' # digits (nat (- i)) else digits (nat i))"

definition js0 :: "jsnum js" where
  "js0 = \<lparr>js_Number = Number0, js_isNaN = (\<lambda>x. x = NaN), js_String = String0\<rparr>"

text \<open>Values of the kinds the round-trip scenario stores.\<close>

datatype jsval = VNum int | VStr string | VBool bool


lemma prev_of_simps [simp]:
  "h r = Some n \<Longrightarrow> prev_of h r = prev n"
  "h r = None \<Longrightarrow> prev_of h r = None"
  by (simp_all add: prev_of_def)

lemma next_of_simps [simp]:
  "h r = Some n \<Longrightarrow> next_of h r = nxt n"
  "h r = None \<Longrightarrow> next_of h r = None"
  by (simp_all add: next_of_def)

lemma set_next_apply:
  "set_next r v h x = (if x = r then map_option (\<lambda>n. n\<lparr>nxt := v\<rparr>) (h r) else h x)"
  by (simp add: set_next_def split: option.splits)

lemma set_prev_apply:
  "set_prev r v h x = (if x = r then map_option (\<lambda>n. n\<lparr>prev := v\<rparr>) (h r) else h x)"
  by (simp add: set_prev_def split: option.splits)

lemma first_or_simps [simp]:
  "first_or [] d = d" "first_or (r # rs) d = Some r"
  by (simp_all add: first_or_def)

lemma last_or_simps [simp]:
  "last_or [] d = d" "last_or (r # rs) d = Some (last (r # rs))"
  by (simp_all add: last_or_def)

lemma first_or_append: "first_or (xs @ ys) d = first_or xs (first_or ys d)"
  by (cases xs) simp_all

lemma last_or_append: "last_or (xs @ ys) d = last_or ys (last_or xs d)"
  by (cases ys) (simp_all add: last_or_def)

lemma seg_append:
  "seg h p (xs @ ys) q \<longleftrightarrow> seg h p xs (first_or ys q) \<and> seg h (last_or xs p) ys q"
proof (induction xs arbitrary: p)
  case Nil
  show ?case by simp
next
  case (Cons x xs)
  show ?case
    by (cases "h x") (auto simp: Cons.IH first_or_append last_or_def)
qed

lemma seg_cong:
  "(\<And>r. r \<in> set rs \<Longrightarrow> prev_of h' r = prev_of h r \<and> next_of h' r = next_of h r \<and> (h' r = None \<longleftrightarrow> h r = None))
   \<Longrightarrow> seg h' p rs q = seg h p rs q"
proof (induction rs arbitrary: p)
  case Nil
  show ?case by simp
next
  case (Cons x xs)
  have ih: "seg h' (Some x) xs q = seg h (Some x) xs q"
    by (rule Cons.IH) (simp add: Cons.prems)
  have x: "prev_of h' x = prev_of h x" "next_of h' x = next_of h x" "h' x = None \<longleftrightarrow> h x = None"
    using Cons.prems[of x] by simp_all
  show ?case
    using x ih by (cases "h x"; cases "h' x") (auto simp: prev_of_def next_of_def)
qed

lemma seg_defined: "seg h p rs q \<Longrightarrow> r \<in> set rs \<Longrightarrow> h r \<noteq> None"
  by (induction rs arbitrary: p) (auto split: option.splits)

lemma seg_set_next_other:
  "a \<notin> set rs \<Longrightarrow> seg (set_next a v h) p rs q = seg h p rs q"
  by (rule seg_cong) (auto simp: set_next_apply prev_of_def next_of_def split: option.splits)

lemma seg_set_prev_other:
  "a \<notin> set rs \<Longrightarrow> seg (set_prev a v h) p rs q = seg h p rs q"
  by (rule seg_cong) (auto simp: set_prev_apply prev_of_def next_of_def split: option.splits)

lemma seg_upd_other:
  "a \<notin> set rs \<Longrightarrow> seg (h(a \<mapsto> n)) p rs q = seg h p rs q"
  by (rule seg_cong) (auto simp: prev_of_def next_of_def)

lemma seg_set_next_snoc:
  assumes "seg h p (xs @ [a]) q" "a \<notin> set xs"
  shows "seg (set_next a q' h) p (xs @ [a]) q'"
proof -
  from assms(1) have 1: "seg h p xs (Some a)" and 2: "seg h (last_or xs p) [a] q"
    by (simp_all add: seg_append)
  have "seg (set_next a q' h) p xs (Some a)"
    using 1 assms(2) by (simp add: seg_set_next_other)
  moreover have "seg (set_next a q' h) (last_or xs p) [a] q'"
    using 2 by (auto simp: set_next_apply split: option.splits)
  ultimately show ?thesis by (simp add: seg_append)
qed

lemma seg_set_next_last:
  assumes "seg h p rs q" "rs \<noteq> []" "distinct rs"
  shows "seg (set_next (last rs) q' h) p rs q'"
proof -
  obtain xs a where rs: "rs = xs @ [a]"
    using assms(2) by (cases rs rule: rev_cases) auto
  have "a \<notin> set xs" using assms(3) by (simp add: rs)
  with seg_set_next_snoc[of h p xs a q q'] assms(1) show ?thesis by (simp add: rs)
qed

lemma seg_set_prev_first:
  "seg h p (r # rs) q \<Longrightarrow> r \<notin> set rs \<Longrightarrow> seg (set_prev r p' h) p' (r # rs) q"
  by (auto simp: set_prev_apply seg_set_prev_other split: option.splits)

lemma seg_prev_first: "seg h p (r # rs) q \<Longrightarrow> prev_of h r = p"
  by (auto split: option.splits)

lemma seg_next_last: "seg h p rs q \<Longrightarrow> rs \<noteq> [] \<Longrightarrow> next_of h (last rs) = q"
proof (induction rs arbitrary: p)
  case Nil
  then show ?case by simp
next
  case (Cons x xs)
  show ?case
  proof (cases xs)
    case Nil
    with Cons.prems show ?thesis by (cases "h x") simp_all
  next
    case (Cons y ys)
    with Cons.prems have "seg h (Some x) xs q" by (cases "h x") simp_all
    with Cons.IH[of "Some x"] Cons show ?thesis by simp
  qed
qed


lemma payload_set_next [simp]: "payload (set_next a v h) = payload h"
  by (rule ext) (simp add: payload_def set_next_apply split: option.splits)

lemma payload_set_prev [simp]: "payload (set_prev a v h) = payload h"
  by (rule ext) (simp add: payload_def set_prev_apply split: option.splits)

lemma key_at_payload: "key_at h r = map_option fst (payload h r)"
  by (simp add: key_at_def payload_def split: option.splits)

lemma unlink_payload [simp]: "payload (heap (unlink r s)) = payload (heap s)"
  by (simp add: unlink_def Let_def split: option.splits)

lemma unlink_fresh [simp]: "fresh (unlink r s) = fresh s"
  by (simp add: unlink_def Let_def split: option.splits)

lemma unlink_more [simp]: "dlist.more (unlink r s) = dlist.more s"
  by (simp add: unlink_def Let_def split: option.splits)

lemma dll_split:
  assumes "dll s (xs @ r # ys)"
  shows "distinct (xs @ r # ys)"
    and "seg (heap s) None xs (Some r)"
    and "seg (heap s) (Some r) ys None"
    and "prev_of (heap s) r = last_or xs None"
    and "next_of (heap s) r = first_or ys None"
    and "heap s r \<noteq> None"
    and "head s = first_or xs (Some r)"
    and "tail s = last_or ys (Some r)"
  using assms
  by (auto simp: dll_def seg_append first_or_append last_or_append last_or_def split: option.splits)

lemma unlink_dll:
  assumes "dll s (xs @ r # ys)"
  shows "dll (unlink r s) (xs @ ys)"
proof -
  note d = dll_split[OF assms]
  have fr: "list_all (\<lambda>r. r < fresh s) (xs @ ys)"
    using assms by (simp add: dll_def)
  define s1 where "s1 = (case prev_of (heap s) r of
                  Some p \<Rightarrow> s\<lparr>heap := set_next p (next_of (heap s) r) (heap s)\<rparr>
                | None \<Rightarrow> s\<lparr>head := next_of (heap s) r\<rparr>)"
  have u: "unlink r s = (case next_of (heap s1) r of
           Some q \<Rightarrow> s1\<lparr>heap := set_prev q (prev_of (heap s1) r) (heap s1)\<rparr>
         | None \<Rightarrow> s1\<lparr>tail := prev_of (heap s1) r\<rparr>)"
    by (simp only: unlink_def s1_def Let_def)
  have s1c: "seg (heap s1) None xs (first_or ys None) \<and> seg (heap s1) (Some r) ys None
           \<and> prev_of (heap s1) r = last_or xs None \<and> next_of (heap s1) r = first_or ys None
           \<and> head s1 = first_or xs (first_or ys None) \<and> tail s1 = last_or ys (Some r)"
  proof (cases xs rule: rev_cases)
    case Nil
    with d show ?thesis
      by (simp add: s1_def)
  next
    case (snoc xs' x)
    have x: "x \<noteq> r" "x \<notin> set ys" "x \<notin> set xs'" using d(1) snoc by auto
    have e: "s1 = s\<lparr>heap := set_next x (first_or ys None) (heap s)\<rparr>"
      using d(4,5) snoc by (simp add: s1_def last_or_def)
    have "seg (heap s1) None xs (first_or ys None)"
      using seg_set_next_snoc[of "heap s" None xs' x "Some r" "first_or ys None"] d(2) x snoc e by simp
    moreover have "seg (heap s1) (Some r) ys None"
      using d(3) x by (simp add: e seg_set_next_other)
    moreover have "prev_of (heap s1) r = last_or xs None" "next_of (heap s1) r = first_or ys None"
      using d(4,5) x by (simp_all add: e prev_of_def next_of_def set_next_apply)
    moreover have "head s1 = first_or xs (first_or ys None)" "tail s1 = last_or ys (Some r)"
      using d(7,8) snoc by (simp_all add: e first_or_append)
    ultimately show ?thesis by simp
  qed
  then have s1: "seg (heap s1) None xs (first_or ys None)"
           "seg (heap s1) (Some r) ys None"
           "prev_of (heap s1) r = last_or xs None"
           "next_of (heap s1) r = first_or ys None"
           "head s1 = first_or xs (first_or ys None)"
           "tail s1 = last_or ys (Some r)"
    by simp_all
  have f1: "fresh s1 = fresh s" by (simp add: s1_def split: option.splits)
  show ?thesis
  proof (cases ys)
    case Nil
    with s1 u have e: "unlink r s = s1\<lparr>tail := last_or xs None\<rparr>" by simp
    show ?thesis using s1 Nil d(1) fr f1 by (simp add: e dll_def)
  next
    case (Cons y ys')
    have y: "y \<noteq> r" "y \<notin> set xs" "y \<notin> set ys'" using d(1) Cons by auto
    have e: "unlink r s = s1\<lparr>heap := set_prev y (last_or xs None) (heap s1)\<rparr>"
      using s1 u Cons by simp
    have "seg (heap (unlink r s)) None xs (first_or ys None)"
      using s1(1) y by (simp add: e seg_set_prev_other)
    moreover have "seg (heap (unlink r s)) (last_or xs None) ys None"
      using seg_set_prev_first[of "heap s1" "Some r" y ys' None "last_or xs None"] s1(2) y Cons
      by (simp add: e)
    moreover have "head (unlink r s) = first_or (xs @ ys) None" "tail (unlink r s) = last_or (xs @ ys) None"
      using s1(5,6) Cons by (simp_all add: e first_or_append last_or_append)
    ultimately show ?thesis
      using d(1) fr f1 by (simp add: dll_def seg_append e)
  qed
qed


lemma set_next_set_prev_commute:
  "set_next r a (set_prev r b h) = set_prev r b (set_next r a h)"
proof (rule ext)
  fix x show "set_next r a (set_prev r b h) x = set_prev r b (set_next r a h) x"
    by (cases "h r") (simp_all add: set_next_apply set_prev_apply)
qed

lemma remove_unlink:
  "remove r s = (unlink r s)\<lparr>heap := set_next r None (set_prev r None (heap (unlink r s)))\<rparr>"
  by (simp only: remove_def unlink_def Let_def)

lemma remove_payload [simp]: "payload (heap (remove r s)) = payload (heap s)"
  by (simp add: remove_unlink)

lemma remove_fresh [simp]: "fresh (remove r s) = fresh s"
  by (simp add: remove_unlink)

lemma remove_more [simp]: "dlist.more (remove r s) = dlist.more s"
  by (simp add: remove_unlink)

lemma remove_dll:
  assumes "dll s (xs @ r # ys)"
  shows "dll (remove r s) (xs @ ys)"
proof -
  have r: "r \<notin> set (xs @ ys)" using dll_split(1)[OF assms] by auto
  have "dll (unlink r s) (xs @ ys)" by (rule unlink_dll[OF assms])
  then show ?thesis
    using r by (simp add: remove_unlink dll_def seg_set_next_other seg_set_prev_other)
qed

lemma payload_eq_None [simp]: "payload h r = None \<longleftrightarrow> h r = None"
  by (simp add: payload_def split: option.splits)

lemma remove_defined: "heap (remove r s) x = None \<longleftrightarrow> heap s x = None"
  by (metis payload_eq_None remove_payload)

lemma addToFront_payload [simp]: "payload (heap (addToFront r s)) = payload (heap s)"
  by (simp add: addToFront_def Let_def split: option.splits)

lemma addToFront_fresh [simp]: "fresh (addToFront r s) = fresh s"
  by (simp add: addToFront_def Let_def split: option.splits)

lemma addToFront_more [simp]: "dlist.more (addToFront r s) = dlist.more s"
  by (simp add: addToFront_def Let_def split: option.splits)

lemma addToFront_dll:
  assumes "dll s rs" "r \<notin> set rs" "heap s r \<noteq> None" "r < fresh s"
  shows "dll (addToFront r s) (r # rs)"
proof (cases rs)
  case Nil
  from assms(3) obtain n where n: "heap s r = Some n" by auto
  from assms(1) Nil have ht: "head s = None" "tail s = None" by (simp_all add: dll_def)
  have e: "addToFront r s = s\<lparr>heap := set_prev r None (set_next r None (heap s)), head := Some r, tail := Some r\<rparr>"
    using ht by (simp add: addToFront_def Let_def)
  show ?thesis
    using n assms(4) Nil by (simp add: e dll_def set_next_apply set_prev_apply)
next
  case (Cons x xs)
  from assms(3) obtain n where n: "heap s r = Some n" by auto
  have x: "x \<noteq> r" "x \<notin> set xs" "r \<notin> set xs" "distinct xs"
    using assms(1,2) Cons by (auto simp: dll_def)
  have hd: "head s = Some x" and tl: "tail s = Some (last rs)"
    using assms(1) Cons by (simp_all add: dll_def)
  have fr: "list_all (\<lambda>r. r < fresh s) rs" using assms(1) by (simp add: dll_def)
  let ?h1 = "set_prev r None (set_next r (Some x) (heap s))"
  let ?h2 = "set_prev x (Some r) ?h1"
  have e: "addToFront r s = s\<lparr>heap := ?h2, head := Some r\<rparr>"
    using hd tl by (simp add: addToFront_def Let_def)
  have "seg (heap s) None (x # xs) None" using assms(1) Cons by (simp add: dll_def)
  then have "seg ?h1 None (x # xs) None"
    using assms(2) Cons by (simp add: seg_set_prev_other seg_set_next_other del: seg.simps)
  then have 1: "seg ?h2 (Some r) (x # xs) None"
    using x by (intro seg_set_prev_first) simp_all
  have 2: "?h2 r = Some (n\<lparr>nxt := Some x, prev := None\<rparr>)"
    using x n by (simp add: set_prev_apply set_next_apply)
  have 3: "seg ?h2 None (r # x # xs) None"
    using 1 2 by (simp del: seg.simps add: seg.simps(2)[of ?h2 None r])
  show ?thesis
    unfolding dll_def
  proof (intro conjI)
    show "distinct (r # rs)" using assms(2) x Cons by simp
    show "seg (heap (addToFront r s)) None (r # rs) None" using 3 Cons by (simp only: e) simp
    show "head (addToFront r s) = first_or (r # rs) None" by (simp add: e)
    show "tail (addToFront r s) = last_or (r # rs) None" using tl Cons by (simp add: e)
    show "list_all (\<lambda>x. x < fresh (addToFront r s)) (r # rs)" using fr assms(4) by (simp add: e)
  qed
qed


lemma dll_remove1:
  assumes "dll s rs" "r \<in> set rs"
  shows "dll (unlink r s) (remove1 r rs)"
proof -
  from assms(2) obtain xs ys where rs: "rs = xs @ r # ys" "r \<notin> set xs"
    by (auto dest: split_list_first)
  then have "remove1 r rs = xs @ ys" by (simp add: remove1_append)
  with unlink_dll[of s xs r ys] assms(1) rs show ?thesis by simp
qed

lemma dll_head_iff: "dll s rs \<Longrightarrow> head s = None \<longleftrightarrow> rs = []"
  by (cases rs) (simp_all add: dll_def)

lemma dll_tail_iff: "dll s rs \<Longrightarrow> tail s = None \<longleftrightarrow> rs = []"
  by (cases rs) (simp_all add: dll_def)

lemma dll_head: "dll s (r # rs) \<Longrightarrow> head s = Some r"
  by (simp add: dll_def)

lemma dll_tail: "dll s rs \<Longrightarrow> rs \<noteq> [] \<Longrightarrow> tail s = Some (last rs)"
  by (simp add: dll_def last_or_def)

lemma dll_distinct: "dll s rs \<Longrightarrow> distinct rs"
  by (simp add: dll_def)

lemma dll_fresh: "dll s rs \<Longrightarrow> r \<in> set rs \<Longrightarrow> r < fresh s"
  by (simp add: dll_def list_all_iff)

lemma dll_defined: "dll s rs \<Longrightarrow> r \<in> set rs \<Longrightarrow> heap s r \<noteq> None"
  unfolding dll_def using seg_defined by blast

lemma dll_unique:
  assumes "dll s rs" "dll s rs'"
  shows "rs = rs'"
proof -
  have "seg h p rs q \<Longrightarrow> seg h p rs' q \<Longrightarrow> first_or rs q = first_or rs' q \<Longrightarrow> distinct rs
        \<Longrightarrow> distinct rs' \<Longrightarrow> q \<notin> Some ` set rs \<Longrightarrow> q \<notin> Some ` set rs' \<Longrightarrow> rs = rs'"
    for h :: "('a, 'b) store" and p q rs rs'
  proof (induction rs arbitrary: rs' p)
    case Nil
    then show ?case by (cases rs') auto
  next
    case (Cons x xs)
    then obtain y ys where rs': "rs' = y # ys" by (cases rs') auto
    with Cons.prems have xy: "x = y" by simp
    from Cons.prems(1) obtain n where n: "h x = Some n" "nxt n = first_or xs q" "seg h (Some x) xs q"
      by (cases "h x") auto
    from Cons.prems(2) rs' xy n have n': "nxt n = first_or ys q" "seg h (Some x) ys q"
      by auto
    have "xs = ys"
      using Cons.IH[of "Some x" ys] n n' Cons.prems rs' by auto
    with xy rs' show ?case by simp
  qed
  from this[of "heap s" None rs None rs'] assms show ?thesis
    by (auto simp: dll_def)
qed

subsection \<open>First implementation: the list operations\<close>

lemma payload_key_at: "payload h' = payload h \<Longrightarrow> key_at h' = key_at h"
  by (rule ext) (simp add: key_at_payload)

lemma key_at_unlink [simp]: "key_at (heap (unlink r s)) = key_at (heap s)"
  by (rule payload_key_at) simp

lemma key_at_addToFront [simp]: "key_at (heap (addToFront r s)) = key_at (heap s)"
  by (rule payload_key_at) simp

lemma lruMap_unlink [simp]: "lruMap (unlink r s) = lruMap s"
  by (simp add: unlink_def Let_def split: option.splits)

lemma cache_unlink [simp]: "cache (unlink r s) = cache s"
  by (simp add: unlink_def Let_def split: option.splits)

lemma removeFromLRU_unlink:
  "lruMap s k = Some r \<Longrightarrow> removeFromLRU k s = (unlink r s)\<lparr>lruMap := (lruMap s)(k := None)\<rparr>"
  by (simp add: removeFromLRU_def unlink_def Let_def split: option.splits)

lemma removeFromLRU_absent: "lruMap s k = None \<Longrightarrow> removeFromLRU k s = s"
  by (simp add: removeFromLRU_def)

lemma dll_lruMap_update [simp]: "dll (s\<lparr>lruMap := m\<rparr>) rs = dll s rs"
  by (simp add: dll_def)

lemma dll_cache_update [simp]: "dll (s\<lparr>cache := c\<rparr>) rs = dll s rs"
  by (simp add: dll_def)

lemma dll_localStorage_update [simp]: "dll (s\<lparr>localStorage := c\<rparr>) rs = dll s rs"
  by (simp add: dll_def)

lemma removeFromLRU_linked:
  assumes "linked1 s rs" "lruMap s k = Some r"
  shows "linked1 (removeFromLRU k s) (remove1 r rs)"
proof -
  have r: "r \<in> set rs" "key_at (heap s) r = Some k" using assms by (auto simp: linked1_def)
  have d: "dll s rs" using assms(1) by (simp add: linked1_def)
  have e: "removeFromLRU k s = (unlink r s)\<lparr>lruMap := (lruMap s)(k := None)\<rparr>"
    by (rule removeFromLRU_unlink[OF assms(2)])
  have 1: "dll (removeFromLRU k s) (remove1 r rs)"
    using dll_remove1[OF d r(1)] by (simp add: e)
  have s: "set (remove1 r rs) = set rs - {r}"
    using dll_distinct[OF d] by simp
  show ?thesis
    unfolding linked1_def
  proof (intro conjI ballI allI impI)
    show "dll (removeFromLRU k s) (remove1 r rs)" by (rule 1)
  next
    fix x assume "x \<in> set (remove1 r rs)"
    then have x: "x \<in> set rs" "x \<noteq> r" using s by auto
    then obtain k' where k': "key_at (heap s) x = Some k'" "lruMap s k' = Some x"
      using assms(1) by (auto simp: linked1_def)
    with assms(2) x have "k' \<noteq> k" by auto
    with k' show "\<exists>ka. key_at (heap (removeFromLRU k s)) x = Some ka \<and> lruMap (removeFromLRU k s) ka = Some x"
      by (simp add: e)
  next
    fix k' x assume a: "lruMap (removeFromLRU k s) k' = Some x"
    then have k': "k' \<noteq> k" "lruMap s k' = Some x" by (auto simp: e split: if_splits)
    then have x: "x \<in> set rs" "key_at (heap s) x = Some k'" using assms(1) by (auto simp: linked1_def)
    with r k' have "x \<noteq> r" by auto
    with x s show "x \<in> set (remove1 r rs)" by simp
    from x show "key_at (heap (removeFromLRU k s)) x = Some k'" by (simp add: e)
  qed
qed


lemma set_prev_idem: "h r = Some n \<Longrightarrow> prev n = v \<Longrightarrow> set_prev r v h = h"
  by (rule ext) (simp add: set_prev_apply)

lemma set_next_idem: "h r = Some n \<Longrightarrow> nxt n = v \<Longrightarrow> set_next r v h = h"
  by (rule ext) (simp add: set_next_apply)

lemma addToLRU_addToFront:
  assumes "head s = None \<longleftrightarrow> tail s = None"
  shows "addToLRU k s = addToFront (fresh s) (alloc1 k s)"
proof (cases "head s")
  case None
  with assms have t: "tail s = None" by simp
  have "set_prev (fresh s) None (set_next (fresh s) None ((heap s)(fresh s \<mapsto> \<lparr>key = k, prev = None, nxt = None\<rparr>)))
        = (heap s)(fresh s \<mapsto> \<lparr>key = k, prev = None, nxt = None\<rparr>)"
    by (rule ext) (simp add: set_prev_apply set_next_apply)
  then show ?thesis
    using None t by (simp add: addToLRU_def addToFront_def alloc1_def Let_def)
next
  case (Some h)
  with assms obtain t where t: "tail s = Some t" by auto
  have "set_prev (fresh s) None (set_next (fresh s) (Some h) ((heap s)(fresh s \<mapsto> \<lparr>key = k, prev = None, nxt = None\<rparr>)))
        = set_next (fresh s) (Some h) ((heap s)(fresh s \<mapsto> \<lparr>key = k, prev = None, nxt = None\<rparr>))"
    by (rule ext) (simp add: set_prev_apply set_next_apply)
  then show ?thesis
    using Some t by (simp add: addToLRU_def addToFront_def alloc1_def Let_def)
qed

lemma dll_alloc1:
  assumes "dll s rs"
  shows "dll (alloc1 k s) rs"
proof -
  have "fresh s \<notin> set rs" using dll_fresh[OF assms] by auto
  moreover have "list_all (\<lambda>r. r < Suc (fresh s)) rs"
    using dll_fresh[OF assms] by (auto simp: list_all_iff less_Suc_eq)
  ultimately show ?thesis
    using assms by (simp add: dll_def alloc1_def seg_upd_other)
qed

lemma addToLRU_dll:
  assumes "dll s rs"
  shows "dll (addToLRU k s) (fresh s # rs)"
proof -
  have e: "addToLRU k s = addToFront (fresh s) (alloc1 k s)"
    using dll_head_iff[OF assms] dll_tail_iff[OF assms] by (intro addToLRU_addToFront) simp
  have "fresh s \<notin> set rs" using dll_fresh[OF assms] by auto
  then show ?thesis
    unfolding e
    by (intro addToFront_dll dll_alloc1 assms) (simp_all add: alloc1_def)
qed

lemma addToLRU_fields [simp]:
  "cache (addToLRU k s) = cache s"
  "lruMap (addToLRU k s) = (lruMap s)(k \<mapsto> fresh s)"
  "fresh (addToLRU k s) = Suc (fresh s)"
  "opt_maxSize (addToLRU k s) = opt_maxSize s"
  "opt_defaultTTL (addToLRU k s) = opt_defaultTTL s"
  "opt_persist (addToLRU k s) = opt_persist s"
  "storageKey (addToLRU k s) = storageKey s"
  "localStorage (addToLRU k s) = localStorage s"
  by (simp_all add: addToLRU_def Let_def split: option.splits)

lemma key_at_set_prev [simp]: "key_at (set_prev a v h) = key_at h"
  by (rule payload_key_at) simp

lemma key_at_set_next [simp]: "key_at (set_next a v h) = key_at h"
  by (rule payload_key_at) simp

lemma key_at_upd [simp]: "key_at (h(r \<mapsto> n)) = (key_at h)(r \<mapsto> key n)"
  by (rule ext) (simp add: key_at_def)

lemma addToLRU_key_at:
  "key_at (heap (addToLRU k s)) = (key_at (heap s))(fresh s \<mapsto> k)"
  by (cases "head s") (simp_all add: addToLRU_def Let_def)

lemma addToLRU_linked:
  assumes "linked1 s rs" "lruMap s k = None"
  shows "linked1 (addToLRU k s) (fresh s # rs)"
proof -
  have d: "dll s rs" using assms(1) by (simp add: linked1_def)
  have f: "fresh s \<notin> set rs" using dll_fresh[OF d] by auto
  show ?thesis
    unfolding linked1_def
  proof (intro conjI ballI allI impI)
    show "dll (addToLRU k s) (fresh s # rs)" by (rule addToLRU_dll[OF d])
  next
    fix x assume x: "x \<in> set (fresh s # rs)"
    show "\<exists>ka. key_at (heap (addToLRU k s)) x = Some ka \<and> lruMap (addToLRU k s) ka = Some x"
    proof (cases "x = fresh s")
      case True
      then show ?thesis by (simp add: addToLRU_key_at)
    next
      case False
      with x have "x \<in> set rs" by simp
      then obtain k' where k': "key_at (heap s) x = Some k'" "lruMap s k' = Some x"
        using assms(1) by (auto simp: linked1_def)
      with assms(2) have "k' \<noteq> k" by auto
      with k' False show ?thesis by (simp add: addToLRU_key_at)
    qed
  next
    fix k' x assume a: "lruMap (addToLRU k s) k' = Some x"
    show "x \<in> set (fresh s # rs)" "key_at (heap (addToLRU k s)) x = Some k'"
    proof -
      have "(k' = k \<and> x = fresh s) \<or> (k' \<noteq> k \<and> lruMap s k' = Some x)"
        using a by (auto split: if_splits)
      then have "x \<in> set (fresh s # rs) \<and> key_at (heap (addToLRU k s)) x = Some k'"
      proof
        assume "k' = k \<and> x = fresh s"
        then show ?thesis by (simp add: addToLRU_key_at)
      next
        assume b: "k' \<noteq> k \<and> lruMap s k' = Some x"
        then have "x \<in> set rs" "key_at (heap s) x = Some k'"
          using assms(1) by (auto simp: linked1_def)
        with f show ?thesis by (auto simp: addToLRU_key_at)
      qed
      then show "x \<in> set (fresh s # rs)" "key_at (heap (addToLRU k s)) x = Some k'" by simp_all
    qed
  qed
qed

lemma moveToFront_unlink:
  assumes "lruMap s k = Some r" "head s \<noteq> Some r" "prev_of (heap s) r \<noteq> None"
    "tail (unlink r s) \<noteq> None"
  shows "moveToFront k s = addToFront r (unlink r s)"
proof -
  from assms(3) obtain p where p: "prev_of (heap s) r = Some p" by auto
  define s1 where "s1 = s\<lparr>heap := set_next p (next_of (heap s) r) (heap s)\<rparr>"
  define s2 where "s2 = (case next_of (heap s1) r of
                        Some q \<Rightarrow> s1\<lparr>heap := set_prev q (prev_of (heap s1) r) (heap s1)\<rparr>
                      | None \<Rightarrow> s1\<lparr>tail := prev_of (heap s1) r\<rparr>)"
  have u: "unlink r s = s2"
    using p by (simp add: unlink_def s2_def s1_def Let_def split: option.splits)
  from assms(4) u obtain t where t: "tail s2 = Some t" by auto
  have m: "moveToFront k s =
        (let s3 = s2\<lparr>heap := set_next r (head s2) (set_prev r None (heap s2))\<rparr>;
             s4 = (case head s3 of
                        Some h \<Rightarrow> s3\<lparr>heap := set_prev h (Some r) (heap s3)\<rparr>
                      | None \<Rightarrow> s3)
         in s4\<lparr>head := Some r\<rparr>)"
    using assms(1,2) p by (simp add: moveToFront_def s2_def s1_def Let_def split: option.splits)
  show ?thesis
    unfolding u m using t
    by (cases "head s2") (simp_all add: addToFront_def Let_def set_next_set_prev_commute)
qed

lemma moveToFront_head: "head s = Some r \<Longrightarrow> lruMap s k = Some r \<Longrightarrow> moveToFront k s = s"
  by (simp add: moveToFront_def)

lemma moveToFront_absent: "lruMap s k = None \<Longrightarrow> moveToFront k s = s"
  by (simp add: moveToFront_def)

lemma more_fields:
  assumes "dlist.more s' = dlist.more (s :: ('n, 'v) SmartCache)"
  shows "cache s' = cache s" "lruMap s' = lruMap s" "opt_maxSize s' = opt_maxSize s"
    "opt_defaultTTL s' = opt_defaultTTL s" "opt_persist s' = opt_persist s"
    "storageKey s' = storageKey s" "localStorage s' = localStorage s"
  using assms by (cases s; cases s'; simp)+

lemma moveToFront_dll:
  assumes "dll s rs" "lruMap s k = Some r" "r \<in> set rs"
  shows "dll (moveToFront k s) (r # remove1 r rs) \<and> key_at (heap (moveToFront k s)) = key_at (heap s)
         \<and> dlist.more (moveToFront k s) = dlist.more s"
proof (cases "head s = Some r")
  case True
  with assms(1,3) obtain rs' where "rs = r # rs'"
    by (cases rs) (auto simp: dll_def)
  with True assms show ?thesis by (simp add: moveToFront_head)
next
  case False
  from assms(3) obtain xs ys where rs: "rs = xs @ r # ys" "r \<notin> set xs"
    by (auto dest: split_list_first)
  have xs: "xs \<noteq> []" using False assms(1) rs by (cases xs) (auto simp: dll_def)
  have d: "dll s (xs @ r # ys)" using assms(1) rs by simp
  have p: "prev_of (heap s) r \<noteq> None"
    using dll_split(4)[OF d] xs by (simp add: last_or_def)
  have u: "dll (unlink r s) (remove1 r rs)" by (rule dll_remove1[OF assms(1,3)])
  have ne: "remove1 r rs \<noteq> []" using rs xs by (simp add: remove1_append)
  have t: "tail (unlink r s) \<noteq> None" using dll_tail_iff[OF u] ne by simp
  have e: "moveToFront k s = addToFront r (unlink r s)"
    by (rule moveToFront_unlink[OF assms(2) False p t])
  have "r \<notin> set (remove1 r rs)" using dll_distinct[OF assms(1)] by simp
  moreover have "heap (unlink r s) r \<noteq> None"
    using dll_defined[OF assms(1,3)] by (metis payload_eq_None unlink_payload)
  moreover have "r < fresh (unlink r s)" using dll_fresh[OF assms(1,3)] by simp
  ultimately have "dll (addToFront r (unlink r s)) (r # remove1 r rs)"
    by (intro addToFront_dll u)
  then show ?thesis by (simp add: e)
qed


subsection \<open>First implementation: every operation keeps the lockstep\<close>

lemma saveToStorage_eq:
  "saveToStorage J now s = s\<lparr>localStorage := localStorage (saveToStorage J now s)\<rparr>"
  by (simp add: saveToStorage_def Let_def split: option.splits)

lemma linked1_localStorage [simp]: "linked1 (s\<lparr>localStorage := x\<rparr>) rs = linked1 s rs"
  by (simp add: linked1_def)

lemma lockstep1_localStorage [simp]: "lockstep1 (s\<lparr>localStorage := x\<rparr>) rs = lockstep1 s rs"
  by (simp add: lockstep1_def)

lemma linked1_cache [simp]: "linked1 (s\<lparr>cache := x\<rparr>) rs = linked1 s rs"
  by (simp add: linked1_def)

lemma lockstep1_saveToStorage [simp]: "lockstep1 (saveToStorage J now s) rs = lockstep1 s rs"
  by (subst saveToStorage_eq) simp

lemma saveToStorage_fields [simp]:
  "cache (saveToStorage J now s) = cache s"
  "lruMap (saveToStorage J now s) = lruMap s"
  "heap (saveToStorage J now s) = heap s"
  "head (saveToStorage J now s) = head s"
  "tail (saveToStorage J now s) = tail s"
  "fresh (saveToStorage J now s) = fresh s"
  "opt_maxSize (saveToStorage J now s) = opt_maxSize s"
  "opt_defaultTTL (saveToStorage J now s) = opt_defaultTTL s"
  "opt_persist (saveToStorage J now s) = opt_persist s"
  "storageKey (saveToStorage J now s) = storageKey s"
  by (subst saveToStorage_eq, simp)+

lemma removeFromLRU_more:
  "cache (removeFromLRU k s) = cache s"
  "opt_maxSize (removeFromLRU k s) = opt_maxSize s"
  "opt_defaultTTL (removeFromLRU k s) = opt_defaultTTL s"
  "opt_persist (removeFromLRU k s) = opt_persist s"
  "storageKey (removeFromLRU k s) = storageKey s"
  "localStorage (removeFromLRU k s) = localStorage s"
  "fresh (removeFromLRU k s) = fresh s"
  by (cases "lruMap s k"; simp add: removeFromLRU_absent removeFromLRU_unlink more_fields[OF unlink_more])+

lemma removeFromLRU_lruMap: "lruMap (removeFromLRU k s) = (lruMap s)(k := None)"
  by (cases "lruMap s k") (auto simp: removeFromLRU_absent removeFromLRU_unlink)

lemma delete1_cache: "cache (delete1 J now k s) = AList.delete k (cache s)"
proof (cases "map_of (cache s) k")
  case None
  then have "k \<notin> fst ` set (cache s)" by (simp add: map_of_eq_None_iff)
  then have "AList.delete k (cache s) = cache s" by (simp add: delete_id)
  with None show ?thesis by (simp add: delete1_def)
next
  case (Some e)
  then show ?thesis by (simp add: delete1_def Let_def removeFromLRU_more)
qed

lemma delete1_config [simp]:
  "opt_maxSize (delete1 J now k s) = opt_maxSize s"
  "opt_defaultTTL (delete1 J now k s) = opt_defaultTTL s"
  "opt_persist (delete1 J now k s) = opt_persist s"
  "storageKey (delete1 J now k s) = storageKey s"
  by (simp_all add: delete1_def Let_def removeFromLRU_more)

lemma lockstep1_has:
  assumes "lockstep1 s rs"
  shows "map_of (cache s) k \<noteq> None \<longleftrightarrow> lruMap s k \<noteq> None"
proof -
  have "map_of (cache s) k \<noteq> None \<longleftrightarrow> k \<in> fst ` set (cache s)"
    by (simp add: map_of_eq_None_iff)
  also have "\<dots> \<longleftrightarrow> k \<in> dom (lruMap s)" using assms by (simp add: lockstep1_def)
  finally show ?thesis by (simp add: dom_def)
qed

lemma delete1_lockstep:
  assumes "lockstep1 s rs"
  shows "lockstep1 (delete1 J now k s) (case lruMap s k of None \<Rightarrow> rs | Some r \<Rightarrow> remove1 r rs)"
proof (cases "lruMap s k")
  case None
  with lockstep1_has[OF assms, of k] have "map_of (cache s) k = None" by simp
  with None assms show ?thesis by (simp add: delete1_def)
next
  case (Some r)
  with lockstep1_has[OF assms, of k] have h: "map_of (cache s) k \<noteq> None" by simp
  let ?s' = "s\<lparr>cache := AList.delete k (cache s)\<rparr>"
  have l: "linked1 ?s' rs" using assms by (simp add: lockstep1_def)
  have "linked1 (removeFromLRU k ?s') (remove1 r rs)"
    by (rule removeFromLRU_linked[OF l]) (simp add: Some)
  moreover have "distinct (map fst (AList.delete k (cache s)))"
    using assms by (simp add: lockstep1_def distinct_delete)
  moreover have "dom ((lruMap s)(k := None)) = fst ` set (AList.delete k (cache s))"
    using assms by (auto simp: lockstep1_def AList.delete_eq image_iff)
  ultimately have "lockstep1 (removeFromLRU k ?s') (remove1 r rs)"
    by (simp add: lockstep1_def removeFromLRU_more removeFromLRU_lruMap)
  then show ?thesis
    using h Some by (simp add: delete1_def Let_def)
qed

lemma delete1_inv: "inv1 s \<Longrightarrow> inv1 (delete1 J now k s)"
  unfolding inv1_def using delete1_lockstep by blast

lemma foldl_delete1_inv: "inv1 s \<Longrightarrow> inv1 (foldl (\<lambda>s' k. delete1 J now k s') s ks)"
  by (induction ks arbitrary: s) (simp_all add: delete1_inv)

lemma cleanExpired_inv: "inv1 s \<Longrightarrow> inv1 (cleanExpired J now s)"
  by (simp add: cleanExpired_def foldl_delete1_inv)

lemma evictLRU_inv: "inv1 s \<Longrightarrow> inv1 (evictLRU J now s)"
  by (simp add: evictLRU_def delete1_inv split: option.splits)

lemma foldl_delete1_cache:
  "cache (foldl (\<lambda>s' k. delete1 J now k s') s ks) = foldl (\<lambda>c k. AList.delete k c) (cache s) ks"
  by (induction ks arbitrary: s) (simp_all add: delete1_cache)

lemma evictLRU_keys_subset: "fst ` set (cache (evictLRU J now s)) \<subseteq> fst ` set (cache s)"
  by (auto simp: evictLRU_def delete1_cache AList.delete_eq split: option.splits)

lemma addToLRU_lockstep:
  assumes "lockstep1 s rs" "map_of (cache s) k = None"
  shows "lockstep1 (addToLRU k (s\<lparr>cache := AList.update k e (cache s)\<rparr>)) (fresh s # rs)"
proof -
  let ?s' = "s\<lparr>cache := AList.update k e (cache s)\<rparr>"
  have n: "lruMap s k = None" using lockstep1_has[OF assms(1), of k] assms(2) by simp
  have "linked1 ?s' rs" using assms(1) by (simp add: lockstep1_def)
  then have "linked1 (addToLRU k ?s') (fresh ?s' # rs)"
    by (rule addToLRU_linked) (simp add: n)
  moreover have "distinct (map fst (AList.update k e (cache s)))"
    using assms(1) by (simp add: lockstep1_def distinct_update)
  moreover have "dom ((lruMap s)(k \<mapsto> fresh s)) = fst ` set (AList.update k e (cache s))"
    using assms(1) by (simp add: lockstep1_def dom_update insert_absorb)
  ultimately show ?thesis by (simp add: lockstep1_def)
qed


lemma set1_lockstep_existing:
  assumes "lockstep1 s rs" "lruMap s k = Some r"
  shows "lockstep1 (addToLRU k ((removeFromLRU k s)\<lparr>cache := AList.update k e (cache s)\<rparr>))
           (fresh s # remove1 r rs)"
proof -
  let ?s1 = "removeFromLRU k s"
  let ?s2 = "?s1\<lparr>cache := AList.update k e (cache s)\<rparr>"
  have l: "linked1 s rs" using assms(1) by (simp add: lockstep1_def)
  have l1: "linked1 ?s2 (remove1 r rs)"
    using removeFromLRU_linked[OF l assms(2)] by simp
  have n: "lruMap ?s2 k = None" by (simp add: removeFromLRU_lruMap)
  have "linked1 (addToLRU k ?s2) (fresh ?s2 # remove1 r rs)"
    by (rule addToLRU_linked[OF l1 n])
  then have 1: "linked1 (addToLRU k ?s2) (fresh s # remove1 r rs)"
    by (simp add: removeFromLRU_more)
  have kin: "k \<in> fst ` set (cache s)"
    using assms by (auto simp: lockstep1_def)
  have 2: "distinct (map fst (AList.update k e (cache s)))"
    using assms(1) by (simp add: lockstep1_def distinct_update)
  have 3: "dom (((lruMap s)(k := None))(k \<mapsto> fresh s)) = fst ` set (AList.update k e (cache s))"
    using assms(1) kin by (auto simp: lockstep1_def dom_update)
  show ?thesis
    using 1 2 3 by (simp add: lockstep1_def removeFromLRU_lruMap removeFromLRU_more)
qed

lemma set1_inv:
  assumes "inv1 s"
  shows "inv1 (set1 J now k v ttlMs s)"
proof -
  from assms obtain rs where ls: "lockstep1 s rs" by (auto simp: inv1_def)
  define ttl where "ttl = (case ttlMs of Some t \<Rightarrow> t | None \<Rightarrow> opt_defaultTTL s)"
  define entry where "entry = \<lparr>entry_value = v, expiresAt = (if ttl > 0 then Some (now + ttl) else None), lastUsed = now\<rparr>"
  show ?thesis
  proof (cases "map_of (cache s) k")
    case (Some e0)
    with lockstep1_has[OF ls, of k] obtain r where r: "lruMap s k = Some r" by auto
    have "\<And>e. inv1 (addToLRU k ((removeFromLRU k s)\<lparr>cache := AList.update k e (cache s)\<rparr>))"
      using set1_lockstep_existing[OF ls r] by (auto simp: inv1_def)
    then show ?thesis
      using Some
      by (simp add: set1_def Let_def removeFromLRU_more inv1_def)
  next
    case None
    define s2 where "s2 = (if int (length (cache s)) \<ge> opt_maxSize s then evictLRU J now s else s)"
    have i2: "inv1 s2" using assms by (simp add: s2_def evictLRU_inv)
    have "fst ` set (cache s2) \<subseteq> fst ` set (cache s)"
      using evictLRU_keys_subset[of J now s] by (auto simp: s2_def)
    with None have n2: "map_of (cache s2) k = None"
      by (auto simp: map_of_eq_None_iff)
    from i2 obtain rs2 where "lockstep1 s2 rs2" by (auto simp: inv1_def)
    from addToLRU_lockstep[OF this n2]
    have 3: "\<And>e. inv1 (addToLRU k (s2\<lparr>cache := AList.update k e (cache s2)\<rparr>))"
      by (auto simp: inv1_def)
    have d: "opt_defaultTTL s2 = opt_defaultTTL s"
      by (simp add: s2_def evictLRU_def split: option.splits)
    show ?thesis
      using None 3 by (simp add: set1_def Let_def s2_def[symmetric] inv1_def)
  qed
qed

lemma moveToFront_lockstep:
  assumes "lockstep1 s rs" "lruMap s k = Some r"
  shows "lockstep1 (moveToFront k s) (r # remove1 r rs)"
proof -
  have l: "linked1 s rs" using assms(1) by (simp add: lockstep1_def)
  then have d: "dll s rs" and rin: "r \<in> set rs" using assms(2) by (auto simp: linked1_def)
  note m = moveToFront_dll[OF d assms(2) rin]
  note f = more_fields[of "moveToFront k s" s]
  have s: "set (r # remove1 r rs) = set rs" using rin dll_distinct[OF d] by auto
  have "linked1 (moveToFront k s) (r # remove1 r rs)"
    unfolding linked1_def
    using m l by (simp only: s f) (simp add: linked1_def)
  then show ?thesis
    using assms(1) m by (simp add: lockstep1_def f)
qed

lemma lockstep1_cache_update:
  assumes "lockstep1 s rs" "map_of (cache s) k \<noteq> None"
  shows "lockstep1 (s\<lparr>cache := AList.update k e (cache s)\<rparr>) rs"
proof -
  have "k \<in> fst ` set (cache s)" using assms(2) by (simp add: map_of_eq_None_iff)
  then show ?thesis
    using assms(1) by (simp add: lockstep1_def distinct_update dom_update insert_absorb)
qed

lemma get1_inv:
  assumes "inv1 s"
  shows "inv1 (snd (get1 J now k s))"
proof (cases "map_of (cache s) k")
  case None
  with assms show ?thesis by (simp add: get1_def)
next
  case (Some e)
  from assms obtain rs where ls: "lockstep1 s rs" by (auto simp: inv1_def)
  show ?thesis
  proof (cases "isExpired now e")
    case True
    with Some assms show ?thesis by (simp add: get1_def delete1_inv)
  next
    case False
    let ?s' = "s\<lparr>cache := AList.update k (e\<lparr>lastUsed := now\<rparr>) (cache s)\<rparr>"
    have l': "lockstep1 ?s' rs" using lockstep1_cache_update[OF ls] Some by simp
    from lockstep1_has[OF ls, of k] Some obtain r where r: "lruMap s k = Some r" by auto
    have "lockstep1 (moveToFront k ?s') (r # remove1 r rs)"
      by (rule moveToFront_lockstep[OF l']) (simp add: r)
    with Some False show ?thesis by (auto simp: get1_def inv1_def)
  qed
qed

lemma has1_inv: "inv1 s \<Longrightarrow> inv1 (snd (has1 J now k s))"
  by (simp add: has1_def delete1_inv split: option.splits)

lemma size1_inv: "inv1 s \<Longrightarrow> inv1 (snd (size1 J now s))"
  by (simp add: size1_def Let_def cleanExpired_inv)

lemma clear1_inv: "inv1 (clear1 J now s)"
proof -
  have "lockstep1 (s\<lparr>cache := [], lruMap := (\<lambda>k. None), head := None, tail := None\<rparr>) []"
    by (simp add: lockstep1_def linked1_def dll_def)
  then show ?thesis
    by (auto simp: clear1_def Let_def inv1_def)
qed

lemma parseKey_inj: "parseKey J a = parseKey J b \<Longrightarrow> a = b"
  by (auto simp: parseKey_def Let_def split: if_splits)

lemma restore1_inv:
  assumes "inv1 s" "distinct (map fst data)"
    "\<forall>n \<in> fst ` set data. map_of (cache s) (parseKey J n) = None"
  shows "inv1 (restore1 J now data s)"
  using assms
proof (induction data arbitrary: s)
  case Nil
  then show ?case by simp
next
  case (Cons a data)
  obtain n ent where a: "a = (n, ent)" by (cases a)
  show ?case
  proof (cases ent)
    case None
    with a Cons.prems show ?thesis by simp
  next
    case (Some e)
    show ?thesis
    proof (cases "case expiresAt e of None \<Rightarrow> False | Some t \<Rightarrow> now > t")
      case True
      have "inv1 (restore1 J now data s)"
        using Cons.prems a by (intro Cons.IH) auto
      with True a Some show ?thesis by simp
    next
      case False
      let ?s' = "addToLRU (parseKey J n) (s\<lparr>cache := AList.update (parseKey J n) e (cache s)\<rparr>)"
      from Cons.prems(1) obtain rs where ls: "lockstep1 s rs" by (auto simp: inv1_def)
      have nn: "map_of (cache s) (parseKey J n) = None" using Cons.prems(3) a by simp
      have i: "inv1 ?s'" using addToLRU_lockstep[OF ls nn] by (auto simp: inv1_def)
      have "\<forall>m \<in> fst ` set data. map_of (cache ?s') (parseKey J m) = None"
      proof
        fix m assume m: "m \<in> fst ` set data"
        with Cons.prems(2) a have "m \<noteq> n" by auto
        then have "parseKey J m \<noteq> parseKey J n" using parseKey_inj by blast
        moreover have "map_of (cache s) (parseKey J m) = None" using Cons.prems(3) m by auto
        ultimately show "map_of (cache ?s') (parseKey J m) = None"
          by (simp add: update_conv')
      qed
      then have "inv1 (restore1 J now data ?s')"
        using Cons.prems(2) i by (intro Cons.IH) auto
      with False a Some show ?thesis by (simp add: Let_def)
    qed
  qed
qed

lemma new1_inv:
  fixes J :: "'n js" and ls :: "'v CacheEntry storage"
  assumes "wf_storage ls"
  shows "inv1 (new1 J now opts ls)"
proof -
  define p where "p = (case persist opts of None \<Rightarrow> PBool False | Some x \<Rightarrow> x)"
  define s0 :: "('n, 'v) SmartCache" where "s0 = \<lparr>heap = (\<lambda>r. None), fresh = 0, head = None, tail = None,
               cache = [], lruMap = (\<lambda>k. None),
               opt_maxSize = maxSize opts,
               opt_defaultTTL = (case defaultTTL opts of None \<Rightarrow> 0 | Some t \<Rightarrow> t),
               opt_persist = p,
               storageKey = (case p of PName n \<Rightarrow> n | PBool b \<Rightarrow> if b then ''smart-cache-default'' else []),
               localStorage = ls\<rparr>"
  have "lockstep1 s0 []" by (simp add: s0_def lockstep1_def linked1_def dll_def)
  then have i0: "inv1 s0" by (auto simp: inv1_def)
  have c0: "cache s0 = []" "localStorage s0 = ls" by (simp_all add: s0_def)
  have "inv1 (loadFromStorage J now s0)"
    using i0 c0 assms
    by (auto simp: loadFromStorage_def wf_storage_def intro!: restore1_inv split: option.splits stored.splits)
  then show ?thesis
    using i0 by (simp add: new1_def Let_def p_def[symmetric] s0_def[symmetric])
qed


section \<open>Decoding of property names on restore\<close>

lemma Number0_simps:
  "Number0 ''true'' = NaN" "Number0 ''007'' = JInt 7"
  by (simp_all add: Number0_def digit_of_def)

lemma String0_7: "String0 (JInt 7) = ''7''"
  by code_simp

text \<open>
  C7. The claim holds for \<open>parseKey\<close> of the first implementation and not for the
  conversion in \<open>loadFromStorage\<close> of the second: there \<open>"true"\<close> stays the string key
  \<open>"true"\<close>, and \<open>"007"\<close>, which is not the canonical form of a number, becomes the number
  key \<open>7\<close>.
\<close>

theorem C7_decode_counterexample:
  "decodeKey2 js0 ''true'' = Str ''true''
   \<and> decodeKey2 js0 ''007'' = Num (JInt 7)
   \<and> js_String js0 (JInt 7) = ''7''"
  by (simp add: decodeKey2_def js0_def Number0_simps String0_7)

text \<open>
  C7, as amended. \<open>parseKey\<close> (first implementation) gives a boolean key exactly for
  \<open>"true"\<close> and \<open>"false"\<close>, a number key exactly for the other strings \<open>s\<close> with
  \<open>Number(s)\<close> not \<open>NaN\<close> and \<open>String(Number(s)) = s\<close>, and the string itself
  otherwise; a boolean key, and a number key \<open>n\<close> that is not \<open>NaN\<close> with
  \<open>Number(String(n)) = n\<close>, written as \<open>String(key)\<close> decode back to the same key. The
  conversion of the second implementation, whose keys are strings and numbers, gives
  the string itself when \<open>Number(s)\<close> is \<open>NaN\<close>, and decodes \<open>String(n)\<close> back to such
  a number key \<open>n\<close>.
\<close>

theorem C7_decode:
  fixes J :: "'n js"
  shows "((\<exists>b. parseKey J s = KBool b) \<longleftrightarrow> (s = ''true'' \<or> s = ''false''))
    \<and> parseKey J ''true'' = KBool True \<and> parseKey J ''false'' = KBool False
    \<and> ((\<exists>n. parseKey J s = KNum n) \<longleftrightarrow>
           (s \<noteq> ''true'' \<and> s \<noteq> ''false'' \<and> \<not> js_isNaN J (js_Number J s) \<and> js_String J (js_Number J s) = s))
    \<and> ((\<exists>n. parseKey J s = KNum n) \<longrightarrow> parseKey J s = KNum (js_Number J s))
    \<and> ((\<forall>b. parseKey J s \<noteq> KBool b) \<and> (\<forall>n. parseKey J s \<noteq> KNum n) \<longrightarrow> parseKey J s = KStr s)
    \<and> parseKey J (keyString J (KBool b)) = KBool b
    \<and> (\<not> js_isNaN J n \<and> js_Number J (js_String J n) = n \<and> js_String J n \<noteq> ''true'' \<and> js_String J n \<noteq> ''false''
         \<longrightarrow> parseKey J (keyString J (KNum n)) = KNum n)
    \<and> (js_isNaN J (js_Number J s) \<longrightarrow> decodeKey2 J s = Str s)
    \<and> (\<not> js_isNaN J n \<and> js_Number J (js_String J n) = n \<longrightarrow> decodeKey2 J (keyString2 J (Num n)) = Num n)"
proof -
  have 1: "(\<exists>b. parseKey J s = KBool b) \<longleftrightarrow> (s = ''true'' \<or> s = ''false'')"
    by (simp add: parseKey_def Let_def)
  have 2: "parseKey J ''true'' = KBool True" "parseKey J ''false'' = KBool False"
    by (simp_all add: parseKey_def)
  have 3: "(\<exists>n. parseKey J s = KNum n) \<longleftrightarrow>
           (s \<noteq> ''true'' \<and> s \<noteq> ''false'' \<and> \<not> js_isNaN J (js_Number J s) \<and> js_String J (js_Number J s) = s)"
    by (simp add: parseKey_def Let_def)
  have 4: "(\<exists>n. parseKey J s = KNum n) \<longrightarrow> parseKey J s = KNum (js_Number J s)"
    by (simp add: parseKey_def Let_def)
  have 5: "(\<forall>b. parseKey J s \<noteq> KBool b) \<and> (\<forall>n. parseKey J s \<noteq> KNum n) \<longrightarrow> parseKey J s = KStr s"
    by (simp add: parseKey_def Let_def)
  have 6: "parseKey J (keyString J (KBool b)) = KBool b"
    by (simp add: parseKey_def)
  have 7: "\<not> js_isNaN J n \<and> js_Number J (js_String J n) = n \<and> js_String J n \<noteq> ''true'' \<and> js_String J n \<noteq> ''false''
         \<longrightarrow> parseKey J (keyString J (KNum n)) = KNum n"
    by (simp add: parseKey_def Let_def)
  have 8: "js_isNaN J (js_Number J s) \<longrightarrow> decodeKey2 J s = Str s"
    by (simp add: decodeKey2_def)
  have 9: "\<not> js_isNaN J n \<and> js_Number J (js_String J n) = n \<longrightarrow> decodeKey2 J (keyString2 J (Num n)) = Num n"
    by (simp add: decodeKey2_def)
  from 1 2 3 4 5 6 7 8 9 show ?thesis by (intro conjI)
qed

theorem C7_decode_witness:
  "\<not> js_isNaN js0 (JInt 7) \<and> js_Number js0 (js_String js0 (JInt 7)) = JInt 7
   \<and> js_String js0 (JInt 7) \<noteq> ''true'' \<and> js_String js0 (JInt 7) \<noteq> ''false''
   \<and> parseKey js0 (keyString js0 (KNum (JInt 7))) = KNum (JInt 7)
   \<and> decodeKey2 js0 (keyString2 js0 (Num (JInt 7))) = Num (JInt 7)
   \<and> js_isNaN js0 (js_Number js0 ''true'') \<and> decodeKey2 js0 ''true'' = Str ''true''
   \<and> (\<exists>n. parseKey js0 ''7'' = KNum n) \<and> parseKey js0 ''7'' = KNum (js_Number js0 ''7'')
   \<and> parseKey js0 ''x7'' = KStr ''x7''"
proof -
  have a: "\<not> js_isNaN js0 (JInt 7)" "js_String js0 (JInt 7) = ''7''" "js_Number js0 ''7'' = JInt 7"
    "js_Number js0 ''true'' = NaN" "js_isNaN js0 NaN" "js_Number js0 ''x7'' = NaN"
    by (simp_all add: js0_def String0_7 Number0_def digit_of_def)
  note t7 = C7_decode[of js0 "''7''" True "JInt 7"]
  note tx = C7_decode[of js0 "''x7''" True "JInt 7"]
  note tt = C7_decode[of js0 "''true''" True "JInt 7"]
  note p7 = t7[THEN conjunct2, THEN conjunct2, THEN conjunct2, THEN conjunct1]
  note p7' = t7[THEN conjunct2, THEN conjunct2, THEN conjunct2, THEN conjunct2, THEN conjunct1]
  note r7 = t7[THEN conjunct2, THEN conjunct2, THEN conjunct2, THEN conjunct2, THEN conjunct2, THEN conjunct2, THEN conjunct2, THEN conjunct1]
  note d7 = t7[THEN conjunct2, THEN conjunct2, THEN conjunct2, THEN conjunct2, THEN conjunct2, THEN conjunct2, THEN conjunct2, THEN conjunct2, THEN conjunct2]
  note px = tx[THEN conjunct1]
  note px' = tx[THEN conjunct2, THEN conjunct2, THEN conjunct2, THEN conjunct1]
  note px'' = tx[THEN conjunct2, THEN conjunct2, THEN conjunct2, THEN conjunct2, THEN conjunct2, THEN conjunct1]
  note dt = tt[THEN conjunct2, THEN conjunct2, THEN conjunct2, THEN conjunct2, THEN conjunct2, THEN conjunct2, THEN conjunct2, THEN conjunct2, THEN conjunct1]
  have 1: "\<exists>n. parseKey js0 ''7'' = KNum n" using p7 a by simp
  have 2: "parseKey js0 ''x7'' = KStr ''x7''" using px px' px'' a by simp
  have 3: "parseKey js0 ''7'' = KNum (js_Number js0 ''7'')" using p7' 1 by simp
  have 4: "parseKey js0 (keyString js0 (KNum (JInt 7))) = KNum (JInt 7)" using r7 a by simp
  have 5: "decodeKey2 js0 (keyString2 js0 (Num (JInt 7))) = Num (JInt 7)" using d7 a by simp
  have 6: "decodeKey2 js0 ''true'' = Str ''true''" using dt a by simp
  show ?thesis
    using a 1 2 3 4 5 6 by simp
qed


end
